theory Spec2Isabelle
  imports Main "HOL-Library.AList"
begin

section \<open>TopicMatcher: the embedding of \<open>src/pattern-playground/matcher.js\<close>\<close>

text \<open>
  JavaScript strings are modelled as \<^typ>\<open>string\<close>. The matcher only ever compares
  characters with the three ASCII constants below and tests membership in the character
  class of its regular expression, so nothing depends on the width of a code unit.
  The original is TypeScript (\<open>src/topic-matcher.ts\<close>) and types every pattern and topic
  as a string: the \<open>typeof\<close> tests of the compiled source are vacuous for that type, and
  \<open>!pattern\<close> is the test for the empty string.
\<close>

subsection \<open>Constants\<close>

text \<open>The delimiter is a one-character string; \<open>split\<close> and \<open>join\<close> below take it as
  that character.\<close>

definition SEGMENT_DELIMITER :: char where
  "SEGMENT_DELIMITER = CHR ''.''"

definition SINGLE_WILDCARD :: string where
  "SINGLE_WILDCARD = ''+''"

definition MULTI_WILDCARD :: string where
  "MULTI_WILDCARD = ''#''"

definition MAX_CACHE_SIZE :: nat where
  "MAX_CACHE_SIZE = 1000"

subsection \<open>Data\<close>

text \<open>A matcher segment: \<open>{type: "multi"}\<close>, \<open>{type: "single"}\<close> or
  \<open>{type: "literal", value}\<close>.\<close>

datatype segment = Multi | Single | Literal string

record matcher =
  pattern :: string
  hasWildcards :: bool
  segments :: "segment list"

text \<open>Every \<open>throw new Error(...)\<close> of the source, with the values its message
  interpolates.\<close>

datatype error =
    InvalidPattern string
  | EmptyPatternSegment string nat
  | MultiNotAtEnd string
  | InvalidPatternChars string string
  | InvalidTopic string
  | WildcardInTopic string
  | EmptyTopicSegment string nat
  | InvalidTopicChars string string

text \<open>
  The process-wide \<open>matcherCache\<close> is a JavaScript \<open>Map\<close>: keys are unique and iteration
  follows insertion order. It is an association list, oldest entry first.
  \<open>Map.get\<close> is \<^const>\<open>map_of\<close>, \<open>Map.set\<close> is \<^const>\<open>AList.update\<close> (a present key keeps
  its position, a new key goes to the end), \<open>Map.delete\<close> is \<^const>\<open>AList.delete\<close>,
  \<open>Map.size\<close> is \<^const>\<open>length\<close>.
\<close>

type_synonym cache = "(string \<times> matcher) list"

subsection \<open>\<open>splitTopic\<close> and \<open>joinTopic\<close>\<close>

text \<open>\<open>String.prototype.split\<close> with a one-character separator: the pieces between the
  separators, in order; the empty string gives one empty piece.\<close>

fun js_split :: "char \<Rightarrow> string \<Rightarrow> string list" where
  "js_split d [] = [[]]"
| "js_split d (c # cs) =
     (if c = d then [] # js_split d cs
      else (case js_split d cs of
              [] \<Rightarrow> [[c]]
            | s # ss \<Rightarrow> (c # s) # ss))"

text \<open>\<open>Array.prototype.join\<close> with a one-character separator; the empty array gives the
  empty string.\<close>

fun js_join :: "char \<Rightarrow> string list \<Rightarrow> string" where
  "js_join d [] = []"
| "js_join d [s] = s"
| "js_join d (s # t # ss) = s @ d # js_join d (t # ss)"

definition splitTopic :: "string \<Rightarrow> string list" where
  "splitTopic topic = js_split SEGMENT_DELIMITER topic"

definition joinTopic :: "string list \<Rightarrow> string" where
  "joinTopic segs = js_join SEGMENT_DELIMITER segs"

subsection \<open>The regular expression \<open>/^[a-zA-Z0-9_-]+$/\<close>\<close>

definition segment_char :: "char \<Rightarrow> bool" where
  "segment_char c =
     (let n = (of_char c :: nat)
      in (97 \<le> n \<and> n \<le> 122) \<or> (65 \<le> n \<and> n \<le> 90) \<or> (48 \<le> n \<and> n \<le> 57)
         \<or> c = CHR ''_'' \<or> c = CHR ''-'')"

definition segment_regex_test :: "string \<Rightarrow> bool" where
  "segment_regex_test s = (s \<noteq> [] \<and> list_all segment_char s)"

subsection \<open>\<open>compileMatcher\<close>\<close>

text \<open>The \<open>for\<close> loop of \<open>compileMatcher\<close>: \<open>i\<close> is the loop index, \<open>hasW\<close> and \<open>acc\<close> are the
  mutable \<open>hasWildcards\<close> and \<open>matcherSegments\<close>. A throw leaves the loop with \<open>Inl\<close>.\<close>

function compileLoop ::
  "string \<Rightarrow> string list \<Rightarrow> nat \<Rightarrow> bool \<Rightarrow> segment list \<Rightarrow> error + (bool \<times> segment list)"
where
  "compileLoop pat segs i hasW acc =
     (if i < length segs then
        (if segs ! i = [] then Inl (EmptyPatternSegment pat i)
         else if segs ! i = MULTI_WILDCARD then
           (if i \<noteq> length segs - 1 then Inl (MultiNotAtEnd pat)
            else compileLoop pat segs (i + 1) True (acc @ [Multi]))
         else if segs ! i = SINGLE_WILDCARD then
           compileLoop pat segs (i + 1) True (acc @ [Single])
         else
           (if \<not> segment_regex_test (segs ! i) then Inl (InvalidPatternChars pat (segs ! i))
            else compileLoop pat segs (i + 1) hasW (acc @ [Literal (segs ! i)])))
      else Inr (hasW, acc))"
  by pat_completeness auto
termination
  by (relation "measure (\<lambda>(pat, segs, i, hasW, acc). length segs - i)") auto

declare compileLoop.simps [simp del]

text \<open>Lines 46 to 49: when the cache is full, the first key in iteration order is
  deleted. On an empty map \<open>keys().next().value\<close> is \<open>undefined\<close> and the delete does
  nothing.\<close>

definition evictOldest :: "cache \<Rightarrow> cache" where
  "evictOldest c =
     (if length c \<ge> MAX_CACHE_SIZE then
        (case c of [] \<Rightarrow> [] | (firstKey, _) # _ \<Rightarrow> AList.delete firstKey c)
      else c)"

text \<open>\<open>compileMatcher\<close> reads and writes the cache: it takes the cache and returns the
  result (the matcher, or the error thrown) with the cache afterwards. A matcher object
  is always truthy, so \<open>if (cached)\<close> is the test that the key is present.\<close>

definition compileMatcher :: "cache \<Rightarrow> string \<Rightarrow> (error + matcher) \<times> cache" where
  "compileMatcher matcherCache pat =
     (case map_of matcherCache pat of
        Some cached \<Rightarrow> (Inr cached, matcherCache)
      | None \<Rightarrow>
          if pat = [] then (Inl (InvalidPattern pat), matcherCache)
          else
            (case compileLoop pat (splitTopic pat) 0 False [] of
               Inl e \<Rightarrow> (Inl e, matcherCache)
             | Inr (hasW, matcherSegments) \<Rightarrow>
                 (let m = \<lparr>pattern = pat, hasWildcards = hasW, segments = matcherSegments\<rparr>
                  in (Inr m, AList.update pat m (evictOldest matcherCache)))))"

definition clearMatcherCache :: "cache \<Rightarrow> cache" where
  "clearMatcherCache c = []"

definition getMatcherCacheSize :: "cache \<Rightarrow> nat" where
  "getMatcherCacheSize c = length c"

subsection \<open>\<open>matchTopic\<close>\<close>

function matchSegments :: "string list \<Rightarrow> nat \<Rightarrow> segment list \<Rightarrow> nat \<Rightarrow> bool" where
  "matchSegments topicSegments topicIndex patternSegments patternIndex =
     (if patternIndex \<ge> length patternSegments then topicIndex \<ge> length topicSegments
      else
        (case patternSegments ! patternIndex of
           Multi \<Rightarrow> True
         | Single \<Rightarrow>
             if topicIndex \<ge> length topicSegments then False
             else matchSegments topicSegments (topicIndex + 1) patternSegments (patternIndex + 1)
         | Literal v \<Rightarrow>
             if topicIndex \<ge> length topicSegments then False
             else if topicSegments ! topicIndex \<noteq> v then False
             else matchSegments topicSegments (topicIndex + 1) patternSegments (patternIndex + 1)))"
  by pat_completeness auto
termination
  by (relation "measure (\<lambda>(ts, ti, ps, pi). length ps - pi)") auto

declare matchSegments.simps [simp del]

definition matchTopic :: "string \<Rightarrow> matcher \<Rightarrow> bool" where
  "matchTopic topic m =
     (if \<not> hasWildcards m then topic = pattern m
      else if list_ex (\<lambda>seg. seg = []) (splitTopic topic) then False
      else matchSegments (splitTopic topic) 0 (segments m) 0)"

subsection \<open>\<open>validatePublishTopic\<close>\<close>

text \<open>\<open>String.prototype.includes\<close>: the needle occurs in the string at some position.\<close>

fun js_includes :: "string \<Rightarrow> string \<Rightarrow> bool" where
  "js_includes [] needle = (needle = [])"
| "js_includes (c # cs) needle =
     (take (length needle) (c # cs) = needle \<or> js_includes cs needle)"

function validateLoop :: "string \<Rightarrow> string list \<Rightarrow> nat \<Rightarrow> error + unit" where
  "validateLoop topic segs i =
     (if i < length segs then
        (if segs ! i = [] then Inl (EmptyTopicSegment topic i)
         else if \<not> segment_regex_test (segs ! i) then Inl (InvalidTopicChars topic (segs ! i))
         else validateLoop topic segs (i + 1))
      else Inr ())"
  by pat_completeness auto
termination
  by (relation "measure (\<lambda>(topic, segs, i). length segs - i)") auto

declare validateLoop.simps [simp del]

definition validatePublishTopic :: "string \<Rightarrow> error + unit" where
  "validatePublishTopic topic =
     (if topic = [] then Inl (InvalidTopic topic)
      else if js_includes topic SINGLE_WILDCARD \<or> js_includes topic MULTI_WILDCARD
        then Inl (WildcardInTopic topic)
      else validateLoop topic (splitTopic topic) 0)"

subsection \<open>Sequences of calls on the cache\<close>

text \<open>The cache starts empty (\<open>new Map()\<close>) and is changed only by \<open>compileMatcher\<close> and
  \<open>clearMatcherCache\<close>. \<open>run calls c\<close> is the cache after the calls, made in order from
  the cache \<open>c\<close>.\<close>

datatype call = Compile string | Clear

fun step :: "call \<Rightarrow> cache \<Rightarrow> cache" where
  "step (Compile p) c = snd (compileMatcher c p)"
| "step Clear c = clearMatcherCache c"

definition run :: "call list \<Rightarrow> cache \<Rightarrow> cache" where
  "run calls c = fold step calls c"

subsection \<open>The specification's vocabulary\<close>

text \<open>A segment that matches \<open>[A-Za-z0-9_-]+\<close> is a literal segment; a pattern segment is a
  literal segment or one of the two wildcards.\<close>

definition valid_segment :: "string \<Rightarrow> bool" where
  "valid_segment s = (s = MULTI_WILDCARD \<or> s = SINGLE_WILDCARD \<or> segment_regex_test s)"

text \<open>A valid pattern: every segment is a literal or a wildcard (so none is empty), and a
  multi-wildcard stands only in the last place.\<close>

definition is_wildcard :: "string \<Rightarrow> bool" where
  "is_wildcard s = (s = MULTI_WILDCARD \<or> s = SINGLE_WILDCARD)"

definition valid_segments :: "string list \<Rightarrow> bool" where
  "valid_segments segs =
     (list_all valid_segment segs \<and> MULTI_WILDCARD \<notin> set (butlast segs))"

definition valid_pattern :: "string \<Rightarrow> bool" where
  "valid_pattern p = valid_segments (splitTopic p)"

definition wildcard_free :: "string \<Rightarrow> bool" where
  "wildcard_free p = (\<not> list_ex is_wildcard (splitTopic p))"

text \<open>A topic in the words of the data model: one or more segments, each matching
  \<open>[A-Za-z0-9_-]+\<close>, joined by the delimiter.\<close>

definition well_formed_topic :: "string \<Rightarrow> bool" where
  "well_formed_topic t =
     (\<exists>segs. segs \<noteq> [] \<and> list_all segment_regex_test segs \<and> t = joinTopic segs)"

text \<open>The segment a valid pattern segment compiles to.\<close>

definition segment_of :: "string \<Rightarrow> segment" where
  "segment_of s =
     (if s = MULTI_WILDCARD then Multi else if s = SINGLE_WILDCARD then Single else Literal s)"

text \<open>The matcher that a valid pattern compiles to, in closed form (see
  \<open>compileMatcher_miss_valid\<close>).\<close>

definition compiled :: "string \<Rightarrow> matcher" where
  "compiled p =
     \<lparr>pattern = p, hasWildcards = list_ex is_wildcard (splitTopic p),
      segments = map segment_of (splitTopic p)\<rparr>"

text \<open>The invariant of the cache: unique keys, at most \<open>MAX_CACHE_SIZE\<close> entries, and every
  entry is a valid pattern with the matcher it compiles to.\<close>

definition cache_inv :: "cache \<Rightarrow> bool" where
  "cache_inv c =
     (distinct (map fst c) \<and> length c \<le> MAX_CACHE_SIZE \<and>
      list_all (\<lambda>(k, m). valid_pattern k \<and> m = compiled k) c)"

section \<open>Splitting and joining\<close>

lemma js_split_nonempty [simp]: "js_split d s \<noteq> []"
  by (induction s) (auto split: list.splits)

lemma js_join_Cons_Cons: "js_join d ((c # s) # ss) = c # js_join d (s # ss)"
  by (cases ss) simp_all

lemma js_join_Nil_Cons: "ss \<noteq> [] \<Longrightarrow> js_join d ([] # ss) = d # js_join d ss"
  by (cases ss) simp_all

lemma js_join_js_split: "js_join d (js_split d s) = s"
proof (induction s)
  case Nil
  show ?case by simp
next
  case (Cons c cs)
  show ?case
  proof (cases "c = d")
    case True
    with Cons show ?thesis by (simp add: js_join_Nil_Cons)
  next
    case False
    obtain x xs where sp: "js_split d cs = x # xs"
      by (cases "js_split d cs") simp_all
    with Cons False show ?thesis by (simp add: js_join_Cons_Cons)
  qed
qed

lemma js_split_no_delim: "d \<notin> set s \<Longrightarrow> js_split d s = [s]"
  by (induction s) auto

lemma js_split_append_delim:
  "d \<notin> set s \<Longrightarrow> js_split d (s @ d # rest) = s # js_split d rest"
  by (induction s) auto

lemma js_split_js_join:
  "segs \<noteq> [] \<Longrightarrow> \<forall>s\<in>set segs. d \<notin> set s \<Longrightarrow> js_split d (js_join d segs) = segs"
  by (induction d segs rule: js_join.induct) (auto simp: js_split_no_delim js_split_append_delim)

lemma js_split_pieces: "s \<in> set (js_split d t) \<Longrightarrow> d \<notin> set s"
  by (induction t arbitrary: s) (auto split: if_splits list.splits)

section \<open>The compile loop\<close>

lemma valid_segment_nonempty: "valid_segment s \<Longrightarrow> s \<noteq> []"
  by (auto simp: valid_segment_def MULTI_WILDCARD_def SINGLE_WILDCARD_def segment_regex_test_def)

lemma drop_step: "i < length xs \<Longrightarrow> drop i xs = xs ! i # drop (Suc i) xs"
  by (simp add: Cons_nth_drop_Suc)

lemma compileLoop_done: "\<not> i < length segs \<Longrightarrow> compileLoop pat segs i hasW acc = Inr (hasW, acc)"
  by (subst compileLoop.simps) simp

lemma compileLoop_empty:
  "i < length segs \<Longrightarrow> segs ! i = [] \<Longrightarrow>
   compileLoop pat segs i hasW acc = Inl (EmptyPatternSegment pat i)"
  by (subst compileLoop.simps) simp

lemma compileLoop_multi_last:
  "i < length segs \<Longrightarrow> segs ! i = MULTI_WILDCARD \<Longrightarrow> drop (Suc i) segs = [] \<Longrightarrow>
   compileLoop pat segs i hasW acc = compileLoop pat segs (Suc i) True (acc @ [Multi])"
  by (subst compileLoop.simps) (auto simp: MULTI_WILDCARD_def)

lemma compileLoop_multi_inner:
  "i < length segs \<Longrightarrow> segs ! i = MULTI_WILDCARD \<Longrightarrow> drop (Suc i) segs \<noteq> [] \<Longrightarrow>
   compileLoop pat segs i hasW acc = Inl (MultiNotAtEnd pat)"
  by (subst compileLoop.simps) (auto simp: MULTI_WILDCARD_def)

lemma compileLoop_single:
  "i < length segs \<Longrightarrow> segs ! i = SINGLE_WILDCARD \<Longrightarrow>
   compileLoop pat segs i hasW acc = compileLoop pat segs (Suc i) True (acc @ [Single])"
  by (subst compileLoop.simps) (simp add: MULTI_WILDCARD_def SINGLE_WILDCARD_def)

lemma compileLoop_literal:
  "i < length segs \<Longrightarrow> segs ! i \<noteq> MULTI_WILDCARD \<Longrightarrow> segs ! i \<noteq> SINGLE_WILDCARD \<Longrightarrow>
   segment_regex_test (segs ! i) \<Longrightarrow>
   compileLoop pat segs i hasW acc = compileLoop pat segs (Suc i) hasW (acc @ [Literal (segs ! i)])"
  by (subst compileLoop.simps) (auto simp: segment_regex_test_def)

lemma compileLoop_bad_chars:
  "i < length segs \<Longrightarrow> segs ! i \<noteq> [] \<Longrightarrow> segs ! i \<noteq> MULTI_WILDCARD \<Longrightarrow>
   segs ! i \<noteq> SINGLE_WILDCARD \<Longrightarrow> \<not> segment_regex_test (segs ! i) \<Longrightarrow>
   compileLoop pat segs i hasW acc = Inl (InvalidPatternChars pat (segs ! i))"
  by (subst compileLoop.simps) simp

lemma valid_segments_Cons:
  "valid_segments (s # rest) =
     (valid_segment s \<and> (s = MULTI_WILDCARD \<longrightarrow> rest = []) \<and> valid_segments rest)"
  by (auto simp: valid_segments_def)

lemma valid_segments_Nil [simp]: "valid_segments []"
  by (simp add: valid_segments_def)

lemma compileLoop_valid:
  "valid_segments (drop i segs) \<Longrightarrow>
   compileLoop pat segs i hasW acc =
     Inr (hasW \<or> list_ex is_wildcard (drop i segs), acc @ map segment_of (drop i segs))"
proof (induction "length segs - i" arbitrary: i hasW acc)
  case 0
  then show ?case by (simp add: compileLoop_done)
next
  case (Suc n)
  then have il: "i < length segs" and n: "n = length segs - (Suc i)" by simp_all
  note d = drop_step [OF il]
  from Suc.prems d have v: "valid_segment (segs ! i)"
    and lastm: "segs ! i = MULTI_WILDCARD \<longrightarrow> drop (Suc i) segs = []"
    and rest: "valid_segments (drop (Suc i) segs)"
    by (simp_all add: valid_segments_Cons)
  note IH = Suc.hyps(1) [OF n rest]
  consider (multi) "segs ! i = MULTI_WILDCARD"
    | (single) "segs ! i = SINGLE_WILDCARD"
    | (lit) "segs ! i \<noteq> MULTI_WILDCARD" "segs ! i \<noteq> SINGLE_WILDCARD" by blast
  then show ?case
  proof cases
    case multi
    with lastm have e: "drop (Suc i) segs = []" by simp
    show ?thesis
      by (simp add: compileLoop_multi_last [OF il multi e] IH d multi is_wildcard_def
          segment_of_def)
  next
    case single
    show ?thesis
      by (simp add: compileLoop_single [OF il single] IH d single is_wildcard_def
          segment_of_def MULTI_WILDCARD_def SINGLE_WILDCARD_def)
  next
    case lit
    with v have rt: "segment_regex_test (segs ! i)" by (simp add: valid_segment_def)
    show ?thesis
      by (simp add: compileLoop_literal [OF il lit rt] IH d lit is_wildcard_def segment_of_def)
  qed
qed

lemma compileLoop_invalid:
  "\<not> valid_segments (drop i segs) \<Longrightarrow> isl (compileLoop pat segs i hasW acc)"
proof (induction "length segs - i" arbitrary: i hasW acc)
  case 0
  then show ?case by simp
next
  case (Suc n)
  then have il: "i < length segs" and n: "n = length segs - (Suc i)" by simp_all
  note d = drop_step [OF il]
  note IH = Suc.hyps(1) [OF n]
  show ?case
  proof (cases "segs ! i = []")
    case True
    then show ?thesis by (simp add: compileLoop_empty [OF il])
  next
    case ne: False
    consider (multi) "segs ! i = MULTI_WILDCARD"
      | (single) "segs ! i = SINGLE_WILDCARD"
      | (lit) "segs ! i \<noteq> MULTI_WILDCARD" "segs ! i \<noteq> SINGLE_WILDCARD" by blast
    then show ?thesis
    proof cases
      case multi
      have "drop (Suc i) segs \<noteq> []"
      proof
        assume "drop (Suc i) segs = []"
        with d multi have "valid_segments (drop i segs)"
          by (simp add: valid_segments_Cons valid_segment_def)
        with Suc.prems show False by simp
      qed
      then show ?thesis by (simp add: compileLoop_multi_inner [OF il multi])
    next
      case single
      with Suc.prems d have "\<not> valid_segments (drop (Suc i) segs)"
        by (simp add: valid_segments_Cons valid_segment_def MULTI_WILDCARD_def SINGLE_WILDCARD_def)
      then show ?thesis by (simp add: compileLoop_single [OF il single] IH)
    next
      case lit
      show ?thesis
      proof (cases "segment_regex_test (segs ! i)")
        case False
        then show ?thesis by (simp add: compileLoop_bad_chars [OF il ne lit])
      next
        case rt: True
        with Suc.prems d lit have "\<not> valid_segments (drop (Suc i) segs)"
          by (simp add: valid_segments_Cons valid_segment_def)
        then show ?thesis by (simp add: compileLoop_literal [OF il lit rt] IH)
      qed
    qed
  qed
qed

section \<open>The matcher cache\<close>

lemma splitTopic_Nil [simp]: "splitTopic [] = [[]]"
  by (simp add: splitTopic_def)

lemma valid_pattern_nonempty: "valid_pattern p \<Longrightarrow> p \<noteq> []"
  by (auto simp: valid_pattern_def valid_segments_def dest: valid_segment_nonempty)

lemma compileMatcher_hit: "map_of c p = Some m \<Longrightarrow> compileMatcher c p = (Inr m, c)"
  by (simp add: compileMatcher_def)

lemma compileMatcher_miss_valid:
  assumes "map_of c p = None" and "valid_pattern p"
  shows "compileMatcher c p = (Inr (compiled p), AList.update p (compiled p) (evictOldest c))"
proof -
  from assms(2) have "compileLoop p (splitTopic p) 0 False [] =
      Inr (list_ex is_wildcard (splitTopic p), map segment_of (splitTopic p))"
    using compileLoop_valid [of 0 "splitTopic p" p False "[]"] by (simp add: valid_pattern_def)
  with assms valid_pattern_nonempty [OF assms(2)] show ?thesis
    by (simp add: compileMatcher_def compiled_def Let_def)
qed

lemma compileMatcher_miss_invalid:
  assumes "map_of c p = None" and "\<not> valid_pattern p"
  shows "isl (fst (compileMatcher c p)) \<and> snd (compileMatcher c p) = c"
proof (cases "p = []")
  case True
  with assms show ?thesis by (simp add: compileMatcher_def)
next
  case False
  from assms(2) have "isl (compileLoop p (splitTopic p) 0 False [])"
    using compileLoop_invalid [of 0 "splitTopic p" p False "[]"] by (simp add: valid_pattern_def)
  then obtain e where "compileLoop p (splitTopic p) 0 False [] = Inl e"
    by (cases "compileLoop p (splitTopic p) 0 False []") simp_all
  with assms False show ?thesis by (simp add: compileMatcher_def)
qed

lemma update_absent: "k \<notin> fst ` set al \<Longrightarrow> AList.update k v al = al @ [(k, v)]"
  by (induction al) auto

lemma evictOldest_full:
  "distinct (map fst c) \<Longrightarrow> MAX_CACHE_SIZE \<le> length c \<Longrightarrow> evictOldest c = tl c"
  by (cases c) (auto simp: evictOldest_def)

lemma evictOldest_room: "length c < MAX_CACHE_SIZE \<Longrightarrow> evictOldest c = c"
  by (simp add: evictOldest_def)

lemma map_of_None_keys: "map_of c p = None \<Longrightarrow> p \<notin> fst ` set c"
  by (simp add: map_of_eq_None_iff)

lemma evictOldest_props:
  assumes "cache_inv c"
  shows "distinct (map fst (evictOldest c)) \<and> length (evictOldest c) < MAX_CACHE_SIZE \<and>
    set (evictOldest c) \<subseteq> set c"
proof -
  from assms have d: "distinct (map fst c)" and l: "length c \<le> MAX_CACHE_SIZE"
    by (simp_all add: cache_inv_def)
  have pos: "0 < MAX_CACHE_SIZE" by (simp add: MAX_CACHE_SIZE_def)
  show ?thesis
  proof (cases "MAX_CACHE_SIZE \<le> length c")
    case True
    with evictOldest_full [OF d] have e: "evictOldest c = tl c" by simp
    from True pos obtain x xs where c: "c = x # xs" by (cases c) auto
    with d l e show ?thesis by auto
  next
    case False
    then have "evictOldest c = c" by (simp add: evictOldest_room)
    with d False show ?thesis by simp
  qed
qed

lemma cache_inv_Nil [simp]: "cache_inv []"
  by (simp add: cache_inv_def)

lemma cache_inv_lookup: "cache_inv c \<Longrightarrow> map_of c p = Some m \<Longrightarrow> valid_pattern p \<and> m = compiled p"
  by (auto simp: cache_inv_def list_all_iff dest: map_of_SomeD)

lemma cache_inv_compileMatcher:
  assumes "cache_inv c"
  shows "cache_inv (snd (compileMatcher c p))"
proof (cases "map_of c p")
  case (Some m)
  with assms show ?thesis by (simp add: compileMatcher_hit)
next
  case None
  show ?thesis
  proof (cases "valid_pattern p")
    case False
    with None assms compileMatcher_miss_invalid [of c p] show ?thesis by simp
  next
    case True
    let ?e = "evictOldest c"
    from evictOldest_props [OF assms]
    have ev: "distinct (map fst ?e)" "length ?e < MAX_CACHE_SIZE" "set ?e \<subseteq> set c"
      by simp_all
    from None have "p \<notin> fst ` set c" by (rule map_of_None_keys)
    with ev(3) have absent: "p \<notin> fst ` set ?e" by auto
    then have u: "AList.update p (compiled p) ?e = ?e @ [(p, compiled p)]"
      by (rule update_absent)
    from assms ev(3) have "list_all (\<lambda>(k, m). valid_pattern k \<and> m = compiled k) ?e"
      by (auto simp: cache_inv_def list_all_iff)
    with ev(1,2) absent True have "cache_inv (?e @ [(p, compiled p)])"
      by (auto simp: cache_inv_def)
    with None True u show ?thesis by (simp add: compileMatcher_miss_valid)
  qed
qed

lemma cache_inv_step: "cache_inv c \<Longrightarrow> cache_inv (step x c)"
  by (cases x) (simp_all add: cache_inv_compileMatcher clearMatcherCache_def)

lemma cache_inv_run: "cache_inv c \<Longrightarrow> cache_inv (run calls c)"
  unfolding run_def by (induction calls arbitrary: c) (simp_all add: cache_inv_step)

lemma cache_inv_reachable: "cache_inv (run calls [])"
  by (simp add: cache_inv_run)

lemma compileMatcher_valid:
  assumes "cache_inv c" and "valid_pattern p"
  shows "fst (compileMatcher c p) = Inr (compiled p)"
proof (cases "map_of c p")
  case None
  with assms(2) show ?thesis by (simp add: compileMatcher_miss_valid)
next
  case (Some m)
  with cache_inv_lookup [OF assms(1) Some] show ?thesis by (simp add: compileMatcher_hit)
qed

lemma compileMatcher_invalid:
  assumes "cache_inv c" and "\<not> valid_pattern p"
  shows "isl (fst (compileMatcher c p))"
proof (cases "map_of c p")
  case None
  with assms(2) show ?thesis by (simp add: compileMatcher_miss_invalid)
next
  case (Some m)
  with cache_inv_lookup [OF assms(1) Some] assms(2) show ?thesis by simp
qed

section \<open>Matching\<close>

lemma matchSegments_multi:
  "patternIndex < length ps \<Longrightarrow> ps ! patternIndex = Multi \<Longrightarrow>
   matchSegments ts topicIndex ps patternIndex"
  by (subst matchSegments.simps) simp

lemma matchSegments_single:
  "patternIndex < length ps \<Longrightarrow> ps ! patternIndex = Single \<Longrightarrow>
   matchSegments ts topicIndex ps patternIndex =
     (topicIndex < length ts \<and> matchSegments ts (topicIndex + 1) ps (patternIndex + 1))"
  by (subst matchSegments.simps) auto

lemma matchTopic_no_wildcards: "\<not> hasWildcards m \<Longrightarrow> matchTopic t m = (t = pattern m)"
  by (simp add: matchTopic_def)

lemma matchTopic_empty_piece:
  "hasWildcards m \<Longrightarrow> [] \<in> set (splitTopic t) \<Longrightarrow> \<not> matchTopic t m"
  by (auto simp: matchTopic_def list_ex_iff)

lemma compiled_simps [simp]:
  "pattern (compiled p) = p"
  "hasWildcards (compiled p) = list_ex is_wildcard (splitTopic p)"
  "segments (compiled p) = map segment_of (splitTopic p)"
  by (simp_all add: compiled_def)

lemma segment_of_wild: "(segment_of s = Multi \<or> segment_of s = Single) = is_wildcard s"
  by (auto simp: segment_of_def is_wildcard_def)

lemma compiled_has_wildcards:
  "hasWildcards (compiled p) =
     (Multi \<in> set (segments (compiled p)) \<or> Single \<in> set (segments (compiled p)))"
proof -
  have "list_ex is_wildcard xs = (Multi \<in> set (map segment_of xs) \<or> Single \<in> set (map segment_of xs))"
    for xs
    by (induction xs) (auto simp: segment_of_def is_wildcard_def)
  then show ?thesis by simp
qed

lemma compileMatcher_reachable:
  "fst (compileMatcher (run calls []) p) = Inr m \<longleftrightarrow> valid_pattern p \<and> m = compiled p"
proof (cases "valid_pattern p")
  case True
  with compileMatcher_valid [OF cache_inv_reachable, of p calls] show ?thesis by auto
next
  case False
  with compileMatcher_invalid [OF cache_inv_reachable, of p calls] show ?thesis by auto
qed

section \<open>Malformed patterns\<close>

lemma not_valid_segment: "\<not> valid_segment s \<longleftrightarrow> \<not> is_wildcard s \<and> (s = [] \<or> \<not> list_all segment_char s)"
  by (auto simp: valid_segment_def is_wildcard_def segment_regex_test_def)

lemma is_wildcard_nonempty: "is_wildcard s \<Longrightarrow> s \<noteq> []"
  by (auto simp: is_wildcard_def MULTI_WILDCARD_def SINGLE_WILDCARD_def)

lemma malformed_kinds:
  "\<not> valid_pattern p \<longleftrightarrow>
     MULTI_WILDCARD \<in> set (butlast (splitTopic p)) \<or> [] \<in> set (splitTopic p) \<or>
     (\<exists>s\<in>set (splitTopic p). \<not> is_wildcard s \<and> \<not> list_all segment_char s)"
proof -
  have "\<not> list_all valid_segment xs \<longleftrightarrow>
      [] \<in> set xs \<or> (\<exists>s\<in>set xs. \<not> is_wildcard s \<and> \<not> list_all segment_char s)" for xs
    by (auto simp: list_all_iff not_valid_segment dest: is_wildcard_nonempty)
  then show ?thesis by (auto simp: valid_pattern_def valid_segments_def)
qed

lemma compileMatcher_isl_iff: "isl (fst (compileMatcher (run calls []) p)) \<longleftrightarrow> \<not> valid_pattern p"
proof (cases "valid_pattern p")
  case True
  with compileMatcher_valid [OF cache_inv_reachable, of p calls] show ?thesis by simp
next
  case False
  with compileMatcher_invalid [OF cache_inv_reachable, of p calls] show ?thesis by simp
qed

section \<open>Publish topics\<close>

lemma validateLoop_ok:
  "list_all segment_regex_test (drop i segs) \<Longrightarrow> validateLoop topic segs i = Inr ()"
proof (induction "length segs - i" arbitrary: i)
  case 0
  then show ?case by (subst validateLoop.simps) simp
next
  case (Suc n)
  then have il: "i < length segs" and n: "n = length segs - Suc i" by simp_all
  from Suc.prems drop_step [OF il] have rt: "segment_regex_test (segs ! i)"
    and rest: "list_all segment_regex_test (drop (Suc i) segs)" by simp_all
  from rt have ne: "segs ! i \<noteq> []" by (auto simp: segment_regex_test_def)
  have "validateLoop topic segs i = validateLoop topic segs (Suc i)"
    using il rt ne by (subst validateLoop.simps) simp
  with Suc.hyps(1) [OF n rest] show ?case by simp
qed

lemma validateLoop_bad:
  "\<not> list_all segment_regex_test (drop i segs) \<Longrightarrow> isl (validateLoop topic segs i)"
proof (induction "length segs - i" arbitrary: i)
  case 0
  then show ?case by simp
next
  case (Suc n)
  then have il: "i < length segs" and n: "n = length segs - Suc i" by simp_all
  show ?case
  proof (cases "segment_regex_test (segs ! i)")
    case False
    with il show ?thesis by (subst validateLoop.simps) simp
  next
    case True
    then have ne: "segs ! i \<noteq> []" by (auto simp: segment_regex_test_def)
    from True Suc.prems drop_step [OF il]
    have rest: "\<not> list_all segment_regex_test (drop (Suc i) segs)" by simp
    have "validateLoop topic segs i = validateLoop topic segs (Suc i)"
      using il True ne by (subst validateLoop.simps) simp
    with Suc.hyps(1) [OF n rest] show ?thesis by simp
  qed
qed

lemma js_includes_single: "js_includes s [c] = (c \<in> set s)"
  by (induction s) auto

lemma not_segment_char [simp]:
  "\<not> segment_char CHR ''.''" "\<not> segment_char CHR ''+''" "\<not> segment_char CHR ''#''"
  by (simp_all add: segment_char_def)

lemma js_split_covers:
  "c \<in> set t \<Longrightarrow> c \<noteq> d \<Longrightarrow> \<exists>s\<in>set (js_split d t). c \<in> set s"
proof (induction t)
  case Nil
  then show ?case by simp
next
  case (Cons x xs)
  obtain y ys where sp: "js_split d xs = y # ys"
    by (cases "js_split d xs") simp_all
  show ?case
  proof (cases "c = x")
    case True
    with Cons.prems sp show ?thesis by simp
  next
    case False
    with Cons obtain s where "s \<in> set (js_split d xs)" "c \<in> set s" by auto
    with sp show ?thesis by (cases "x = d") auto
  qed
qed

lemma bad_char_fails:
  assumes "c \<in> set t" and "\<not> segment_char c" and "c \<noteq> SEGMENT_DELIMITER"
  shows "\<not> list_all segment_regex_test (splitTopic t)"
proof -
  from js_split_covers [OF assms(1,3)] obtain s
    where "s \<in> set (splitTopic t)" "c \<in> set s" by (auto simp: splitTopic_def)
  with assms(2) show ?thesis by (auto simp: list_all_iff segment_regex_test_def)
qed

lemma validatePublishTopic_iff:
  "validatePublishTopic t = Inr () \<longleftrightarrow> list_all segment_regex_test (splitTopic t)"
  "isl (validatePublishTopic t) \<longleftrightarrow> \<not> list_all segment_regex_test (splitTopic t)"
proof -
  have "validatePublishTopic t = Inr () \<and> \<not> isl (validatePublishTopic t)"
    if ok: "list_all segment_regex_test (splitTopic t)"
  proof -
    from ok have "t \<noteq> []" by (auto simp: segment_regex_test_def)
    moreover from ok have "CHR ''+'' \<notin> set t"
      using bad_char_fails [of "CHR ''+''" t] by (auto simp: SEGMENT_DELIMITER_def)
    moreover from ok have "CHR ''#'' \<notin> set t"
      using bad_char_fails [of "CHR ''#''" t] by (auto simp: SEGMENT_DELIMITER_def)
    moreover from ok have "validateLoop t (splitTopic t) 0 = Inr ()"
      by (simp add: validateLoop_ok)
    ultimately show ?thesis
      by (simp add: validatePublishTopic_def js_includes_single SINGLE_WILDCARD_def
          MULTI_WILDCARD_def)
  qed
  moreover have "isl (validatePublishTopic t)"
    if bad: "\<not> list_all segment_regex_test (splitTopic t)"
  proof -
    from bad have "isl (validateLoop t (splitTopic t) 0)" by (simp add: validateLoop_bad)
    then show ?thesis by (simp add: validatePublishTopic_def)
  qed
  ultimately have both: "if list_all segment_regex_test (splitTopic t)
      then validatePublishTopic t = Inr () \<and> \<not> isl (validatePublishTopic t)
      else isl (validatePublishTopic t)" by simp
  show "validatePublishTopic t = Inr () \<longleftrightarrow> list_all segment_regex_test (splitTopic t)"
    using both by (cases "list_all segment_regex_test (splitTopic t)") auto
  show "isl (validatePublishTopic t) \<longleftrightarrow> \<not> list_all segment_regex_test (splitTopic t)"
    using both by (cases "list_all segment_regex_test (splitTopic t)") auto
qed

lemma segment_regex_test_no_delim:
  "segment_regex_test s \<Longrightarrow> SEGMENT_DELIMITER \<notin> set s"
  by (auto simp: segment_regex_test_def list_all_iff SEGMENT_DELIMITER_def)

lemma well_formed_topic_iff:
  "well_formed_topic t \<longleftrightarrow> list_all segment_regex_test (splitTopic t)"
proof
  assume "well_formed_topic t"
  then obtain segs where segs: "segs \<noteq> []" "list_all segment_regex_test segs"
    and t: "t = joinTopic segs" by (auto simp: well_formed_topic_def)
  from segs(2) have "\<forall>s\<in>set segs. SEGMENT_DELIMITER \<notin> set s"
    by (auto simp: list_all_iff dest: segment_regex_test_no_delim)
  with segs(1) t have "splitTopic t = segs"
    by (simp add: splitTopic_def joinTopic_def js_split_js_join)
  with segs(2) show "list_all segment_regex_test (splitTopic t)" by simp
next
  assume "list_all segment_regex_test (splitTopic t)"
  moreover have "splitTopic t \<noteq> []" by (simp add: splitTopic_def)
  moreover have "t = joinTopic (splitTopic t)"
    by (simp add: joinTopic_def splitTopic_def js_join_js_split)
  ultimately show "well_formed_topic t" unfolding well_formed_topic_def by blast
qed

section \<open>Filling the cache\<close>

text \<open>The patterns \<open>a\<close>, \<open>aa\<close>, \<open>aaa\<close>, ... are valid and pairwise different; compiling the
  first \<open>n\<close> of them from the empty cache fills it with \<open>n\<close> entries, as long as \<open>n\<close> stays
  within the bound.\<close>

lemma valid_pattern_replicate: "valid_pattern (replicate (Suc n) CHR ''a'')"
proof -
  have "SEGMENT_DELIMITER \<notin> set (replicate (Suc n) CHR ''a'')"
    by (simp add: SEGMENT_DELIMITER_def)
  then have "splitTopic (replicate (Suc n) CHR ''a'') = [replicate (Suc n) CHR ''a'']"
    unfolding splitTopic_def by (rule js_split_no_delim)
  moreover have "segment_char CHR ''a''" by (simp add: segment_char_def)
  ultimately show ?thesis
    by (simp add: valid_pattern_def valid_segments_def valid_segment_def segment_regex_test_def
        list_all_iff)
qed

lemma run_append: "run (xs @ ys) c = run ys (run xs c)"
  by (simp add: run_def)

lemma run_fill:
  "n \<le> MAX_CACHE_SIZE \<Longrightarrow>
   run (map (\<lambda>i. Compile (replicate (Suc i) CHR ''a'')) [0..<n]) [] =
     map (\<lambda>i. (replicate (Suc i) CHR ''a'', compiled (replicate (Suc i) CHR ''a''))) [0..<n]"
proof (induction n)
  case 0
  show ?case by (simp add: run_def)
next
  case (Suc n)
  let ?k = "\<lambda>i. replicate (Suc i) CHR ''a''"
  let ?c = "map (\<lambda>i. (?k i, compiled (?k i))) [0..<n]"
  from Suc have c: "run (map (\<lambda>i. Compile (?k i)) [0..<n]) [] = ?c" by simp
  have "length (?k n) \<noteq> length (?k i)" if "i < n" for i using that by simp
  then have absent: "?k n \<notin> fst ` set ?c" by (auto simp: image_iff)
  then have miss: "map_of ?c (?k n) = None" by (simp add: map_of_eq_None_iff)
  from Suc.prems have room: "evictOldest ?c = ?c" by (simp add: evictOldest_room)
  from absent have "AList.update (?k n) (compiled (?k n)) ?c = ?c @ [(?k n, compiled (?k n))]"
    by (rule update_absent)
  with compileMatcher_miss_valid [OF miss valid_pattern_replicate] room
  have "snd (compileMatcher ?c (?k n)) = ?c @ [(?k n, compiled (?k n))]" by simp
  with c show ?case by (simp add: run_append run_def)
qed

section \<open>Wildcard characters and wildcard segments\<close>

text \<open>In a valid pattern a wildcard character can only stand as a segment of its own, so
  a valid pattern has no wildcard segment exactly when it has no wildcard character.\<close>

lemma js_split_piece_chars: "s \<in> set (js_split d t) \<Longrightarrow> set s \<subseteq> set t"
proof (induction t arbitrary: s)
  case Nil
  then show ?case by simp
next
  case (Cons x xs)
  obtain y ys where sp: "js_split d xs = y # ys"
    by (cases "js_split d xs") simp_all
  show ?case
  proof (cases "x = d")
    case True
    with Cons.prems Cons.IH [of s] show ?thesis by auto
  next
    case False
    with Cons.prems sp have "s = x # y \<or> s \<in> set ys" by simp
    with Cons.IH [of y] Cons.IH [of s] sp show ?thesis by auto
  qed
qed

lemma wildcard_free_chars:
  assumes "valid_pattern p"
  shows "wildcard_free p \<longleftrightarrow> CHR ''+'' \<notin> set p \<and> CHR ''#'' \<notin> set p"
proof
  assume wf: "wildcard_free p"
  have "c \<notin> set p" if c: "c = CHR ''+'' \<or> c = CHR ''#''" for c
  proof
    assume "c \<in> set p"
    moreover from c have "c \<noteq> SEGMENT_DELIMITER" by (auto simp: SEGMENT_DELIMITER_def)
    ultimately obtain s where s: "s \<in> set (splitTopic p)" "c \<in> set s"
      using js_split_covers [of c p SEGMENT_DELIMITER] by (auto simp: splitTopic_def)
    from wf s(1) have "\<not> is_wildcard s" by (auto simp: wildcard_free_def list_ex_iff)
    moreover from assms s(1) have "valid_segment s"
      by (auto simp: valid_pattern_def valid_segments_def list_all_iff)
    ultimately have "list_all segment_char s"
      by (auto simp: valid_segment_def is_wildcard_def segment_regex_test_def)
    with s(2) have "segment_char c" by (auto simp: list_all_iff)
    with c show False by auto
  qed
  then show "CHR ''+'' \<notin> set p \<and> CHR ''#'' \<notin> set p" by blast
next
  assume nc: "CHR ''+'' \<notin> set p \<and> CHR ''#'' \<notin> set p"
  have "\<not> is_wildcard s" if "s \<in> set (splitTopic p)" for s
  proof
    assume "is_wildcard s"
    then have "CHR ''+'' \<in> set s \<or> CHR ''#'' \<in> set s"
      by (auto simp: is_wildcard_def MULTI_WILDCARD_def SINGLE_WILDCARD_def)
    with js_split_piece_chars [of s SEGMENT_DELIMITER p] that nc show False
      by (auto simp: splitTopic_def)
  qed
  then show "wildcard_free p" by (auto simp: wildcard_free_def list_ex_iff)
qed

section \<open>The claims\<close>

text \<open>
  Claim C9. Splitting a string at the delimiter and joining the pieces with the same
  delimiter gives the string back, for every string.
\<close>

theorem joinTopic_splitTopic: "joinTopic (splitTopic t) = t"
  by (simp add: joinTopic_def splitTopic_def js_join_js_split)

text \<open>
  Claim C1. For a valid pattern \<open>p\<close> without wildcards, compiled in any state the cache can
  be in, and every topic \<open>t\<close>: \<open>compileMatcher\<close> returns a matcher, and \<open>matchTopic\<close> of \<open>t\<close>
  and that matcher is true exactly when \<open>t\<close> and \<open>p\<close> are the same string.
\<close>

theorem exact_match_consistency:
  assumes "valid_pattern p" and "wildcard_free p"
  shows "\<exists>m. fst (compileMatcher (run calls []) p) = Inr m \<and> (matchTopic t m \<longleftrightarrow> t = p)"
proof -
  from assms(1) have "fst (compileMatcher (run calls []) p) = Inr (compiled p)"
    by (simp add: compileMatcher_reachable)
  moreover from assms(2) have "matchTopic t (compiled p) \<longleftrightarrow> t = p"
    by (simp add: matchTopic_no_wildcards wildcard_free_def)
  ultimately show ?thesis by blast
qed

theorem exact_match_consistency_witness:
  "valid_pattern ''cart.item'' \<and> wildcard_free ''cart.item'' \<and>
   (\<exists>m. fst (compileMatcher (run [Compile ''cart.item''] []) ''cart.item'') = Inr m \<and>
        matchTopic ''cart.item'' m) \<and>
   (\<exists>m. fst (compileMatcher (run [] []) ''cart.item'') = Inr m \<and>
        \<not> matchTopic ''cart.items'' m)"
proof -
  have v: "valid_pattern ''cart.item''" by code_simp
  have w: "wildcard_free ''cart.item''" by code_simp
  from exact_match_consistency [OF v w, of "[Compile ''cart.item'']" "''cart.item''"]
    exact_match_consistency [OF v w, of "[]" "''cart.items''"] v w
  show ?thesis by simp
qed

text \<open>
  Claim C2. A multi-wildcard at the pattern cursor makes \<open>matchSegments\<close> true at once,
  whatever the topic cursor and however many topic segments remain (also none). The
  matcher of \<open>a.#\<close>, compiled in any state of the cache, matches \<open>a\<close> and \<open>a.b.c.d\<close> and
  does not match \<open>x.y\<close>.
\<close>

theorem multi_wildcard_breadth:
  "(patternIndex < length ps \<and> ps ! patternIndex = Multi \<longrightarrow>
      matchSegments ts topicIndex ps patternIndex) \<and>
   (\<exists>m. fst (compileMatcher (run calls []) ''a.#'') = Inr m \<and>
        matchTopic ''a'' m \<and> matchTopic ''a.b.c.d'' m \<and> \<not> matchTopic ''x.y'' m)"
proof -
  have v: "valid_pattern ''a.#''" by code_simp
  have "matchTopic ''a'' (compiled ''a.#'')" by code_simp
  moreover have "matchTopic ''a.b.c.d'' (compiled ''a.#'')" by code_simp
  moreover have "\<not> matchTopic ''x.y'' (compiled ''a.#'')" by code_simp
  moreover from v have "fst (compileMatcher (run calls []) ''a.#'') = Inr (compiled ''a.#'')"
    by (simp add: compileMatcher_reachable)
  ultimately show ?thesis by (auto simp: matchSegments_multi)
qed

theorem multi_wildcard_breadth_witness:
  "(1::nat) < length [Literal ''a'', Multi] \<and> [Literal ''a'', Multi] ! 1 = Multi \<and>
   matchSegments [''a''] 1 [Literal ''a'', Multi] 1 \<and>
   matchSegments [''a'', ''b'', ''c'', ''d''] 1 [Literal ''a'', Multi] 1 \<and>
   (\<exists>m. fst (compileMatcher (run [Compile ''x.+'', Clear, Compile ''a.#''] []) ''a.#'') = Inr m \<and>
        matchTopic ''a'' m \<and> matchTopic ''a.b.c.d'' m \<and> \<not> matchTopic ''x.y'' m)"
  using multi_wildcard_breadth [of 1 "[Literal ''a'', Multi]" "[''a'']" 1
      "[Compile ''x.+'', Clear, Compile ''a.#'']"]
    multi_wildcard_breadth [of 1 "[Literal ''a'', Multi]" "[''a'', ''b'', ''c'', ''d'']" 1 "[]"]
  by simp

text \<open>
  Claim C5. A single wildcard at the pattern cursor fails when no topic segment remains,
  and otherwise consumes one topic segment: the match continues with both cursors
  advanced by one. The matcher of \<open>a.+.c\<close>, compiled in any state of the cache, matches
  \<open>a.b.c\<close> and does not match \<open>a.b.d.c\<close>.
\<close>

theorem single_wildcard_arity:
  "(patternIndex < length ps \<and> ps ! patternIndex = Single \<longrightarrow>
      matchSegments ts topicIndex ps patternIndex =
        (topicIndex < length ts \<and>
         matchSegments ts (topicIndex + 1) ps (patternIndex + 1))) \<and>
   (\<exists>m. fst (compileMatcher (run calls []) ''a.+.c'') = Inr m \<and>
        matchTopic ''a.b.c'' m \<and> \<not> matchTopic ''a.b.d.c'' m)"
proof -
  have v: "valid_pattern ''a.+.c''" by code_simp
  have "matchTopic ''a.b.c'' (compiled ''a.+.c'')" by code_simp
  moreover have "\<not> matchTopic ''a.b.d.c'' (compiled ''a.+.c'')" by code_simp
  moreover from v have "fst (compileMatcher (run calls []) ''a.+.c'') = Inr (compiled ''a.+.c'')"
    by (simp add: compileMatcher_reachable)
  ultimately show ?thesis using matchSegments_single [of patternIndex ps ts topicIndex]
    by auto
qed

theorem single_wildcard_arity_witness:
  "(1::nat) < length [Literal ''a'', Single] \<and> [Literal ''a'', Single] ! 1 = Single \<and>
   \<not> matchSegments [''a''] 1 [Literal ''a'', Single] 1 \<and>
   matchSegments [''a'', ''b''] 1 [Literal ''a'', Single] 1 =
     matchSegments [''a'', ''b''] 2 [Literal ''a'', Single] 2 \<and>
   (\<exists>m. fst (compileMatcher (run [Compile ''a.+.c''] []) ''a.+.c'') = Inr m \<and>
        matchTopic ''a.b.c'' m \<and> \<not> matchTopic ''a.b.d.c'' m)"
  using single_wildcard_arity [of 1 "[Literal ''a'', Single]" "[''a'']" 1 "[Compile ''a.+.c'']"]
    single_wildcard_arity [of 1 "[Literal ''a'', Single]" "[''a'', ''b'']" 1 "[]"]
  by (simp add: numeral_2_eq_2)

text \<open>
  Claim C3. In any state the cache can be in, \<open>compileMatcher\<close> throws exactly for the
  patterns that are not valid, and a pattern is not valid exactly when a multi-wildcard
  stands before the last segment, or a segment is empty, or a segment that is no
  wildcard has a character outside \<open>[A-Za-z0-9_-]\<close>. So each of the three kinds of
  malformed pattern throws and a valid pattern never does.
\<close>

theorem compileMatcher_throws_iff_malformed:
  "(isl (fst (compileMatcher (run calls []) p)) \<longleftrightarrow> \<not> valid_pattern p) \<and>
   (\<not> valid_pattern p \<longleftrightarrow>
      MULTI_WILDCARD \<in> set (butlast (splitTopic p)) \<or> [] \<in> set (splitTopic p) \<or>
      (\<exists>s\<in>set (splitTopic p). \<not> is_wildcard s \<and> \<not> list_all segment_char s))"
  using compileMatcher_isl_iff [of calls p] malformed_kinds [of p] by blast

theorem compileMatcher_throws_iff_malformed_witness:
  "MULTI_WILDCARD \<in> set (butlast (splitTopic ''a.#.b'')) \<and>
   isl (fst (compileMatcher (run [Compile ''a.#''] []) ''a.#.b'')) \<and>
   [] \<in> set (splitTopic ''a..b'') \<and>
   isl (fst (compileMatcher (run [Compile ''a.b''] []) ''a..b'')) \<and>
   \<not> is_wildcard ''b c'' \<and> \<not> list_all segment_char ''b c'' \<and>
   isl (fst (compileMatcher (run [] []) ''a.b c'')) \<and>
   valid_pattern ''a.+.#'' \<and>
   \<not> isl (fst (compileMatcher (run [Compile ''a.+.#'', Clear] []) ''a.+.#''))"
proof -
  have a: "MULTI_WILDCARD \<in> set (butlast (splitTopic ''a.#.b''))" by code_simp
  have b: "[] \<in> set (splitTopic ''a..b'')" by code_simp
  have c: "''b c'' \<in> set (splitTopic ''a.b c'')" "\<not> is_wildcard ''b c''"
    "\<not> list_all segment_char ''b c''" by code_simp+
  have d: "valid_pattern ''a.+.#''" by code_simp
  from a compileMatcher_throws_iff_malformed [of "[Compile ''a.#'']" "''a.#.b''"]
  have "isl (fst (compileMatcher (run [Compile ''a.#''] []) ''a.#.b''))" by blast
  moreover from b compileMatcher_throws_iff_malformed [of "[Compile ''a.b'']" "''a..b''"]
  have "isl (fst (compileMatcher (run [Compile ''a.b''] []) ''a..b''))" by blast
  moreover from c compileMatcher_throws_iff_malformed [of "[]" "''a.b c''"]
  have "isl (fst (compileMatcher (run [] []) ''a.b c''))" by blast
  moreover from d compileMatcher_throws_iff_malformed [of "[Compile ''a.+.#'', Clear]" "''a.+.#''"]
  have "\<not> isl (fst (compileMatcher (run [Compile ''a.+.#'', Clear] []) ''a.+.#''))" by blast
  ultimately show ?thesis using a b c d by blast
qed

text \<open>
  Claim C7. \<open>matchTopic\<close> is false for a matcher with wildcards on every topic whose split
  has an empty segment. That holds for any matcher whose \<open>hasWildcards\<close> is set, and so
  for the matcher of any pattern with a single or a multi wildcard among its segments,
  compiled in any state of the cache.
\<close>

theorem matchTopic_rejects_empty_segment:
  "(hasWildcards m \<and> [] \<in> set (splitTopic t) \<longrightarrow> \<not> matchTopic t m) \<and>
   (fst (compileMatcher (run calls []) p) = Inr m' \<and>
    (Multi \<in> set (segments m') \<or> Single \<in> set (segments m')) \<and>
    [] \<in> set (splitTopic t) \<longrightarrow> \<not> matchTopic t m')"
proof -
  have "\<not> matchTopic t m'"
    if "fst (compileMatcher (run calls []) p) = Inr m'"
      and "Multi \<in> set (segments m') \<or> Single \<in> set (segments m')"
      and "[] \<in> set (splitTopic t)"
  proof -
    from that(1) have "m' = compiled p" by (simp add: compileMatcher_reachable)
    with that(2) have "hasWildcards m'" by (simp only: compiled_has_wildcards)
    then show ?thesis using that(3) by (rule matchTopic_empty_piece)
  qed
  then show ?thesis using matchTopic_empty_piece [of m t] by blast
qed

theorem matchTopic_rejects_empty_segment_witness:
  "fst (compileMatcher (run [] []) ''a.#'') = Inr (compiled ''a.#'') \<and>
   hasWildcards (compiled ''a.#'') \<and> Multi \<in> set (segments (compiled ''a.#'')) \<and>
   [] \<in> set (splitTopic ''.a'') \<and> \<not> matchTopic ''.a'' (compiled ''a.#'') \<and>
   [] \<in> set (splitTopic ''a.'') \<and> \<not> matchTopic ''a.'' (compiled ''a.#'') \<and>
   [] \<in> set (splitTopic ''a..b'') \<and> \<not> matchTopic ''a..b'' (compiled ''a.#'') \<and>
   [] \<in> set (splitTopic '''') \<and> \<not> matchTopic '''' (compiled ''a.#'')"
proof -
  have c: "fst (compileMatcher (run [] []) ''a.#'') = Inr (compiled ''a.#'')" by code_simp
  have h: "hasWildcards (compiled ''a.#'')" by code_simp
  have s: "Multi \<in> set (segments (compiled ''a.#''))" by code_simp
  have e: "[] \<in> set (splitTopic ''.a'')" "[] \<in> set (splitTopic ''a.'')"
    "[] \<in> set (splitTopic ''a..b'')" "[] \<in> set (splitTopic '''')" by code_simp+
  from c s e(1) matchTopic_rejects_empty_segment
    [where calls = "[]" and p = "''a.#''" and m' = "compiled ''a.#''" and t = "''.a''"]
  have "\<not> matchTopic ''.a'' (compiled ''a.#'')" by blast
  moreover from h e(2) matchTopic_rejects_empty_segment [of "compiled ''a.#''" "''a.''"]
  have "\<not> matchTopic ''a.'' (compiled ''a.#'')" by blast
  moreover from h e(3) matchTopic_rejects_empty_segment [of "compiled ''a.#''" "''a..b''"]
  have "\<not> matchTopic ''a..b'' (compiled ''a.#'')" by blast
  moreover from h e(4) matchTopic_rejects_empty_segment [of "compiled ''a.#''" "''''"]
  have "\<not> matchTopic '''' (compiled ''a.#'')" by blast
  ultimately show ?thesis using c h s e by blast
qed

text \<open>
  Claim C8. Let \<open>p\<close> be a valid pattern and the cache be in any state it can reach. A first
  call of \<open>compileMatcher\<close> on \<open>p\<close> returns a matcher; a second call right after it returns
  the entry the cache holds for \<open>p\<close>, which is the same matcher, so both match every topic
  alike. The same holds when any other calls come between the two.
\<close>

theorem cache_idempotence:
  assumes "valid_pattern p"
    and "compileMatcher (run calls []) p = (r1, c1)"
    and "compileMatcher c1 p = (r2, c2)"
  shows "\<exists>m1 m2. r1 = Inr m1 \<and> r2 = Inr m2 \<and> map_of c1 p = Some m2 \<and> m2 = m1 \<and>
           (\<forall>t. matchTopic t m2 = matchTopic t m1) \<and>
           fst (compileMatcher (run others c1) p) = Inr m1"
proof -
  let ?c = "run calls []"
  have inv: "cache_inv ?c" by (rule cache_inv_reachable)
  from compileMatcher_valid [OF inv assms(1)] assms(2) have r1: "r1 = Inr (compiled p)"
    by simp
  have c1: "c1 = snd (compileMatcher ?c p)" using assms(2) by simp
  have hit: "map_of c1 p = Some (compiled p)"
  proof (cases "map_of ?c p")
    case None
    with assms(1) c1 show ?thesis by (simp add: compileMatcher_miss_valid update_conv')
  next
    case (Some m)
    with cache_inv_lookup [OF inv Some] c1 show ?thesis by (simp add: compileMatcher_hit)
  qed
  with assms(3) have r2: "r2 = Inr (compiled p)" by (simp add: compileMatcher_hit)
  from inv c1 have "cache_inv c1" by (simp add: cache_inv_compileMatcher)
  then have "cache_inv (run others c1)" by (rule cache_inv_run)
  from compileMatcher_valid [OF this assms(1)] r1 r2 hit show ?thesis by simp
qed

theorem cache_idempotence_witness:
  "valid_pattern ''a.+.c'' \<and>
   compileMatcher (run [Compile ''x.#''] []) ''a.+.c'' =
     (Inr (compiled ''a.+.c''), [(''x.#'', compiled ''x.#''), (''a.+.c'', compiled ''a.+.c'')]) \<and>
   compileMatcher [(''x.#'', compiled ''x.#''), (''a.+.c'', compiled ''a.+.c'')] ''a.+.c'' =
     (Inr (compiled ''a.+.c''), [(''x.#'', compiled ''x.#''), (''a.+.c'', compiled ''a.+.c'')]) \<and>
   (\<exists>m1 m2. Inr (compiled ''a.+.c'') = (Inr m1 :: error + matcher) \<and>
      Inr (compiled ''a.+.c'') = (Inr m2 :: error + matcher) \<and>
      (\<forall>t. matchTopic t m2 = matchTopic t m1))"
proof -
  let ?c1 = "[(''x.#'', compiled ''x.#''), (''a.+.c'', compiled ''a.+.c'')]"
  have v: "valid_pattern ''a.+.c''" by code_simp
  have a: "compileMatcher (run [Compile ''x.#''] []) ''a.+.c'' = (Inr (compiled ''a.+.c''), ?c1)"
    by code_simp
  have b: "compileMatcher ?c1 ''a.+.c'' = (Inr (compiled ''a.+.c''), ?c1)"
    by code_simp
  from cache_idempotence [OF v a b] v a b show ?thesis by blast
qed

text \<open>
  Claim C10. When the cache holds an entry for the pattern, \<open>compileMatcher\<close> returns that
  entry's matcher and the cache it leaves is the cache it found: the same entries in the
  same order, hence the same size. This holds for every cache and every pattern,
  whether or not the pattern is valid, so a hit validates nothing.
\<close>

theorem cache_hit_leaves_cache_unchanged:
  assumes "map_of c p = Some m"
  shows "compileMatcher c p = (Inr m, c) \<and>
         getMatcherCacheSize (snd (compileMatcher c p)) = getMatcherCacheSize c"
  using assms by (simp add: compileMatcher_def)

theorem cache_hit_leaves_cache_unchanged_witness:
  "run [Compile ''a.b'', Compile ''a.#''] [] =
     [(''a.b'', compiled ''a.b''), (''a.#'', compiled ''a.#'')] \<and>
   map_of [(''a.b'', compiled ''a.b''), (''a.#'', compiled ''a.#'')] ''a.b'' =
     Some (compiled ''a.b'') \<and>
   compileMatcher [(''a.b'', compiled ''a.b''), (''a.#'', compiled ''a.#'')] ''a.b'' =
     (Inr (compiled ''a.b''), [(''a.b'', compiled ''a.b''), (''a.#'', compiled ''a.#'')])"
proof -
  let ?c = "[(''a.b'', compiled ''a.b''), (''a.#'', compiled ''a.#'')]"
  have r: "run [Compile ''a.b'', Compile ''a.#''] [] = ?c" by code_simp
  have h: "map_of ?c ''a.b'' = Some (compiled ''a.b'')" by simp
  from cache_hit_leaves_cache_unchanged [OF h] r h show ?thesis by simp
qed

text \<open>
  Claim C6. \<open>validatePublishTopic\<close> throws exactly for the strings that are not a topic
  (one or more segments matching \<open>[A-Za-z0-9_-]+\<close>, joined by the delimiter). So it
  throws when the string has a \<open>+\<close> or a \<open>#\<close>, when a segment is empty and when a segment
  has a character outside the class, and for a well-formed topic it returns normally.
\<close>

theorem validatePublishTopic_throws_iff:
  "(isl (validatePublishTopic t) \<longleftrightarrow> \<not> well_formed_topic t) \<and>
   (CHR ''+'' \<in> set t \<or> CHR ''#'' \<in> set t \<longrightarrow> isl (validatePublishTopic t)) \<and>
   ([] \<in> set (splitTopic t) \<longrightarrow> isl (validatePublishTopic t)) \<and>
   ((\<exists>s\<in>set (splitTopic t). \<not> list_all segment_char s) \<longrightarrow> isl (validatePublishTopic t)) \<and>
   (well_formed_topic t \<longrightarrow> validatePublishTopic t = Inr ())"
proof -
  have "isl (validatePublishTopic t)" if "CHR ''+'' \<in> set t \<or> CHR ''#'' \<in> set t"
    using that bad_char_fails [of "CHR ''+''" t] bad_char_fails [of "CHR ''#''" t]
    by (auto simp: validatePublishTopic_iff SEGMENT_DELIMITER_def)
  moreover have "isl (validatePublishTopic t)" if "[] \<in> set (splitTopic t)"
    using that by (auto simp: validatePublishTopic_iff list_all_iff segment_regex_test_def)
  moreover have "isl (validatePublishTopic t)"
    if "\<exists>s\<in>set (splitTopic t). \<not> list_all segment_char s"
    using that by (auto simp: validatePublishTopic_iff list_all_iff segment_regex_test_def)
  ultimately show ?thesis
    by (simp add: validatePublishTopic_iff well_formed_topic_iff)
qed

theorem validatePublishTopic_throws_iff_witness:
  "well_formed_topic ''cart.item-2.add_X'' \<and> validatePublishTopic ''cart.item-2.add_X'' = Inr () \<and>
   CHR ''+'' \<in> set ''cart.+.add'' \<and> isl (validatePublishTopic ''cart.+.add'') \<and>
   CHR ''#'' \<in> set ''cart.#'' \<and> isl (validatePublishTopic ''cart.#'') \<and>
   [] \<in> set (splitTopic ''cart..add'') \<and> isl (validatePublishTopic ''cart..add'') \<and>
   \<not> list_all segment_char ''item add'' \<and> isl (validatePublishTopic ''cart.item add'') \<and>
   \<not> well_formed_topic '''' \<and> isl (validatePublishTopic '''')"
proof -
  have "[''cart'', ''item-2'', ''add_X''] \<noteq> [] \<and>
      list_all segment_regex_test [''cart'', ''item-2'', ''add_X''] \<and>
      ''cart.item-2.add_X'' = joinTopic [''cart'', ''item-2'', ''add_X'']" by code_simp
  then have w: "well_formed_topic ''cart.item-2.add_X''"
    unfolding well_formed_topic_def by (rule exI)
  have p: "CHR ''+'' \<in> set ''cart.+.add''" and h: "CHR ''#'' \<in> set ''cart.#''" by simp_all
  have e: "[] \<in> set (splitTopic ''cart..add'')" by code_simp
  have b: "''item add'' \<in> set (splitTopic ''cart.item add'')"
    "\<not> list_all segment_char ''item add''" by code_simp+
  have n: "[] \<in> set (splitTopic '''')" by code_simp
  from w validatePublishTopic_throws_iff [of "''cart.item-2.add_X''"]
  have "validatePublishTopic ''cart.item-2.add_X'' = Inr ()" by blast
  moreover from p validatePublishTopic_throws_iff [of "''cart.+.add''"]
  have "isl (validatePublishTopic ''cart.+.add'')" by blast
  moreover from h validatePublishTopic_throws_iff [of "''cart.#''"]
  have "isl (validatePublishTopic ''cart.#'')" by blast
  moreover from e validatePublishTopic_throws_iff [of "''cart..add''"]
  have "isl (validatePublishTopic ''cart..add'')" by blast
  moreover from b validatePublishTopic_throws_iff [of "''cart.item add''"]
  have "isl (validatePublishTopic ''cart.item add'')" by blast
  moreover from n validatePublishTopic_throws_iff [of "''''"]
  have "isl (validatePublishTopic '''')" "\<not> well_formed_topic ''''" by blast+
  ultimately show ?thesis using w p h e b by blast
qed

text \<open>
  Claim C4. The bound is 1000, and after any sequence of calls from the empty cache the
  cache holds at most that many entries. When a new matcher is inserted into a full
  cache (the pattern is not cached and compiles), the cache afterwards is the old one
  without its first, that is oldest, entry and with the new entry at the end; it is full
  again.
\<close>

theorem cache_never_exceeds_bound:
  "MAX_CACHE_SIZE = 1000 \<and>
   getMatcherCacheSize (run calls []) \<le> MAX_CACHE_SIZE \<and>
   (MAX_CACHE_SIZE \<le> getMatcherCacheSize (run calls []) \<and> map_of (run calls []) p = None \<and>
    compileMatcher (run calls []) p = (Inr m, c') \<longrightarrow>
      c' = tl (run calls []) @ [(p, m)] \<and> getMatcherCacheSize c' = MAX_CACHE_SIZE)"
proof -
  let ?c = "run calls []"
  have inv: "cache_inv ?c" by (rule cache_inv_reachable)
  then have bound: "length ?c \<le> MAX_CACHE_SIZE" and d: "distinct (map fst ?c)"
    by (simp_all add: cache_inv_def)
  have "c' = tl ?c @ [(p, m)] \<and> length c' = MAX_CACHE_SIZE"
    if full: "MAX_CACHE_SIZE \<le> length ?c" and miss: "map_of ?c p = None"
      and res: "compileMatcher ?c p = (Inr m, c')"
  proof -
    have v: "valid_pattern p"
    proof (rule ccontr)
      assume "\<not> valid_pattern p"
      with compileMatcher_miss_invalid [OF miss] res show False by simp
    qed
    from compileMatcher_miss_valid [OF miss v] res
    have m: "m = compiled p" and c': "c' = AList.update p m (evictOldest ?c)" by simp_all
    from evictOldest_full [OF d full] have e: "evictOldest ?c = tl ?c" .
    from miss have "p \<notin> fst ` set ?c" by (rule map_of_None_keys)
    then have "p \<notin> fst ` set (tl ?c)" by (cases ?c) auto
    with c' e have eq: "c' = tl ?c @ [(p, m)]" by (simp add: update_absent)
    have "0 < MAX_CACHE_SIZE" by (simp add: MAX_CACHE_SIZE_def)
    with full bound eq show ?thesis by simp
  qed
  with bound show ?thesis by (simp add: getMatcherCacheSize_def MAX_CACHE_SIZE_def)
qed

theorem cache_never_exceeds_bound_witness:
  "MAX_CACHE_SIZE \<le>
     getMatcherCacheSize
       (run (map (\<lambda>i. Compile (replicate (Suc i) CHR ''a'')) [0..<1000]) []) \<and>
   map_of (run (map (\<lambda>i. Compile (replicate (Suc i) CHR ''a'')) [0..<1000]) []) ''b'' = None \<and>
   hd (run (map (\<lambda>i. Compile (replicate (Suc i) CHR ''a'')) [0..<1000]) []) =
     (''a'', compiled ''a'') \<and>
   compileMatcher (run (map (\<lambda>i. Compile (replicate (Suc i) CHR ''a'')) [0..<1000]) []) ''b'' =
     (Inr (compiled ''b''),
      tl (run (map (\<lambda>i. Compile (replicate (Suc i) CHR ''a'')) [0..<1000]) []) @
        [(''b'', compiled ''b'')]) \<and>
   getMatcherCacheSize
     (tl (run (map (\<lambda>i. Compile (replicate (Suc i) CHR ''a'')) [0..<1000]) []) @
        [(''b'', compiled ''b'')]) = MAX_CACHE_SIZE"
proof -
  let ?calls = "map (\<lambda>i. Compile (replicate (Suc i) CHR ''a'')) [0..<1000]"
  let ?c = "run ?calls []"
  let ?c' = "snd (compileMatcher ?c ''b'')"
  have fill: "?c =
      map (\<lambda>i. (replicate (Suc i) CHR ''a'', compiled (replicate (Suc i) CHR ''a''))) [0..<1000]"
    by (rule run_fill) (simp add: MAX_CACHE_SIZE_def)
  have full: "MAX_CACHE_SIZE \<le> getMatcherCacheSize ?c"
    unfolding fill by (simp add: getMatcherCacheSize_def MAX_CACHE_SIZE_def)
  have miss: "map_of ?c ''b'' = None"
    unfolding fill by (simp add: map_of_eq_None_iff image_iff)
  have first: "hd ?c = (''a'', compiled ''a'')"
    unfolding fill by (simp add: hd_map)
  have v: "valid_pattern ''b''" by code_simp
  have res: "compileMatcher ?c ''b'' = (Inr (compiled ''b''), ?c')"
    by (simp only: compileMatcher_miss_valid [OF miss v] snd_conv)
  from cache_never_exceeds_bound [of ?calls "''b''" "compiled ''b''" ?c'] full miss res
  have eq: "?c' = tl ?c @ [(''b'', compiled ''b'')]"
    and size: "getMatcherCacheSize ?c' = MAX_CACHE_SIZE"
    by blast+
  from res have res': "compileMatcher ?c ''b'' =
      (Inr (compiled ''b''), tl ?c @ [(''b'', compiled ''b'')])"
    by (simp only: eq)
  from size have size': "getMatcherCacheSize (tl ?c @ [(''b'', compiled ''b'')]) = MAX_CACHE_SIZE"
    by (simp only: eq)
  from full miss first res' size' show ?thesis by blast
qed

end
